theory Spec2Isabelle
  imports Main "HOL-Library.Word"
begin

section \<open>The framed transport (common/jsonpipe.cc)\<close>

text \<open>
  The transport object of \<^verbatim>\<open>jsonpipe.cc\<close>: two file descriptors (\<open>-1\<close> means closed or
  not set), the end-of-stream latch, the two queues and the two partial buffers. Everything
  the object does to the outside world (the bytes handed to \<^verbatim>\<open>send\<close>, \<^verbatim>\<open>close\<close> and
  \<^verbatim>\<open>shutdown\<close>, diagnostics, the mutex and the condition variable) is appended, in program
  order, to \<open>trace\<close>. What the descriptors deliver is an input: the results of the successive
  \<^verbatim>\<open>read\<close> and \<^verbatim>\<open>send\<close> calls are given as a script.
\<close>

datatype how = SHUT_RD | SHUT_WR

datatype event =
    Lock
  | Unlock
  | Send int string
  | Close int
  | Shutdown int how
  | NotifyAll
  | Wait
  | EprintfNoNewline nat
  | EprintfWrite

record jsonpipe =
  txFd :: int
  rxFd :: int
  txEofFlag :: bool
  txQ :: "string list"
  rxQ :: "string list"
  txCur :: string
  rxCur :: string
  trace :: "event list"

text \<open>What one \<^verbatim>\<open>read\<close> call returns: \<open>nr \<ge> 0\<close> bytes (none at all is end of stream),
  \<open>nr < 0\<close> with \<^verbatim>\<open>EAGAIN\<close>, or \<open>nr < 0\<close> with another error.\<close>

datatype read_result = ReadBytes string | ReadAgain | ReadErr

text \<open>What one \<^verbatim>\<open>send\<close> call returns: the number of bytes taken, \<^verbatim>\<open>EAGAIN\<close>, or
  another error.\<close>

datatype send_result = Sent nat | SendAgain | SendErr

datatype error = RuntimeError

datatype 'a blocking = Returned 'a | Blocked

abbreviation NL :: char where
  "NL \<equiv> CHR 0x0A"

definition emit :: "event \<Rightarrow> jsonpipe \<Rightarrow> jsonpipe" where
  "emit e st = st\<lparr>trace := trace st @ [e]\<rparr>"

text \<open>The constructor: both descriptors unset, latch clear, queues and buffers empty.\<close>

definition jsonpipe_init :: jsonpipe where
  "jsonpipe_init = \<lparr>txFd = - 1, rxFd = - 1, txEofFlag = False, txQ = [], rxQ = [],
     txCur = [], rxCur = [], trace = []\<rparr>"

definition closeRx :: "jsonpipe \<Rightarrow> jsonpipe" where
  "closeRx st =
     (if rxFd st = - 1 then st
      else (if rxFd st = txFd st then emit (Shutdown (rxFd st) SHUT_RD) st
            else emit (Close (rxFd st)) st)\<lparr>rxFd := - 1\<rparr>)"

definition closeTx :: "jsonpipe \<Rightarrow> jsonpipe" where
  "closeTx st =
     (if txFd st = - 1 then st
      else (if txFd st = rxFd st then emit (Shutdown (txFd st) SHUT_WR) st
            else emit (Close (txFd st)) st)\<lparr>txFd := - 1\<rparr>)"

text \<open>
  The inner loop of \<^verbatim>\<open>rxWork\<close> over one chunk \<open>p .. pend\<close>: \<^verbatim>\<open>memchr\<close> looks for the next
  newline; without one the rest of the chunk is appended to \<open>rxCur\<close>; with one, the bytes
  before it complete a record. The flag is \<^verbatim>\<open>rxActivity\<close>.
\<close>

function rxScan :: "string \<Rightarrow> jsonpipe \<times> bool \<Rightarrow> jsonpipe \<times> bool" where
  "rxScan p (st, rxActivity) =
     (if p = [] then (st, rxActivity)
      else if NL \<notin> set p then (st\<lparr>rxCur := rxCur st @ p\<rparr>, rxActivity)
      else
        (let seg = takeWhile (\<lambda>c. c \<noteq> NL) p;
             p' = tl (dropWhile (\<lambda>c. c \<noteq> NL) p)
         in if rxCur st \<noteq> []
            then rxScan p' (st\<lparr>rxCur := [], rxQ := rxQ st @ [rxCur st @ seg]\<rparr>, True)
            else rxScan p' (st\<lparr>rxQ := rxQ st @ [seg]\<rparr>, True)))"
  by pat_completeness auto
termination
proof (relation "measure (\<lambda>(p, _). length p)")
  show "wf (measure (\<lambda>(p, _). length p))" by simp
next
  fix p :: string and st :: jsonpipe and rxActivity :: bool and seg p'
  assume "p \<noteq> []" and "p' = tl (dropWhile (\<lambda>c. c \<noteq> NL) p)"
  then have "length p' < length p"
    using length_dropWhile_le [of "\<lambda>c. c \<noteq> NL" p]
    by (cases "dropWhile (\<lambda>c. c \<noteq> NL) p") (auto simp: less_Suc_eq_le)
  then show "((p', st\<lparr>rxCur := [], rxQ := rxQ st @ [rxCur st @ seg]\<rparr>, True), p, st, rxActivity)
       \<in> measure (\<lambda>(p, _). length p)"
    and "((p', st\<lparr>rxQ := rxQ st @ [seg]\<rparr>, True), p, st, rxActivity)
       \<in> measure (\<lambda>(p, _). length p)"
    by simp_all
qed

text \<open>
  The outer loop of \<^verbatim>\<open>rxWork\<close>. The results of the successive \<^verbatim>\<open>read\<close> calls are given as
  a script; \<open>None\<close> means the loop asked for a read the script does not answer.
\<close>

fun rxLoop :: "read_result list \<Rightarrow> jsonpipe \<times> bool \<Rightarrow> (jsonpipe \<times> bool) option" where
  "rxLoop [] (st, rxActivity) = None"
| "rxLoop (r # rs) (st, rxActivity) =
     (case r of
        ReadAgain \<Rightarrow> Some (st, rxActivity)
      | ReadErr \<Rightarrow> Some (closeRx st, rxActivity)
      | ReadBytes buf \<Rightarrow>
          if buf = [] then
            Some (closeRx
              ((if rxCur st \<noteq> [] then emit (EprintfNoNewline (length (rxCur st))) st else st)
                \<lparr>rxCur := []\<rparr>), rxActivity)
          else rxLoop rs (rxScan buf (st, rxActivity)))"

definition rxWork :: "read_result list \<Rightarrow> jsonpipe \<Rightarrow> jsonpipe option" where
  "rxWork script st =
     (case rxLoop script (st, False) of
        None \<Rightarrow> None
      | Some (st', rxActivity) \<Rightarrow> Some (if rxActivity then emit NotifyAll st' else st'))"

text \<open>A run of servicing passes, as the event loop drives them: each pass reads the given
  chunks and ends when \<^verbatim>\<open>read\<close> reports would-block.\<close>

fun rxFeed :: "string list list \<Rightarrow> jsonpipe \<Rightarrow> jsonpipe option" where
  "rxFeed [] st = Some st"
| "rxFeed (chunks # passes) st =
     (case rxWork (map ReadBytes chunks @ [ReadAgain]) st of
        None \<Rightarrow> None
      | Some st' \<Rightarrow> rxFeed passes st')"

text \<open>
  \<^verbatim>\<open>txWork\<close>: the results of the successive \<^verbatim>\<open>send\<close> calls are a script, as for reading.
  \<open>Inl RuntimeError\<close> is the \<^verbatim>\<open>throw runtime_error\<close> of the last branch. \<open>txNext\<close> is the
  first statement of the loop body, which makes the head of the queue, with its newline, the
  current record when there is none.
\<close>

definition txNext :: "jsonpipe \<Rightarrow> jsonpipe" where
  "txNext st =
     (if txCur st = [] \<and> txQ st \<noteq> []
      then st\<lparr>txCur := hd (txQ st) @ [NL], txQ := tl (txQ st)\<rparr> else st)"

fun txWork :: "send_result list \<Rightarrow> jsonpipe \<Rightarrow> (error + jsonpipe) option" where
  "txWork script st =
     (let st = txNext st
      in if txCur st = [] then Some (Inr (if txEofFlag st then closeTx st else st))
         else case script of
           [] \<Rightarrow> None
         | r # rs \<Rightarrow>
             (let st = emit (Send (txFd st) (txCur st)) st in
              case r of
                SendAgain \<Rightarrow> Some (Inr st)
              | SendErr \<Rightarrow> Some (Inr (closeTx (emit EprintfWrite st)))
              | Sent nw \<Rightarrow>
                  if nw < length (txCur st) then txWork rs (st\<lparr>txCur := drop nw (txCur st)\<rparr>)
                  else if nw = length (txCur st) then txWork rs (st\<lparr>txCur := []\<rparr>)
                  else Some (Inl RuntimeError)))"

declare txWork.simps [simp del]

definition rxNonblock :: "jsonpipe \<Rightarrow> string \<times> jsonpipe" where
  "rxNonblock st =
     (let st = emit Lock st in
      if rxQ st = [] then ([], emit Unlock st)
      else (hd (rxQ st), emit Unlock (st\<lparr>rxQ := tl (rxQ st)\<rparr>)))"

text \<open>
  \<^verbatim>\<open>rxBlock\<close> up to its first \<^verbatim>\<open>wait\<close>: it returns, or it blocks on the condition variable
  (which releases the mutex) until another thread calls \<^verbatim>\<open>notify_all\<close>.
\<close>

definition rxBlock :: "jsonpipe \<Rightarrow> string blocking \<times> jsonpipe" where
  "rxBlock st =
     (let st = emit Lock st in
      if rxQ st = [] then
        (if rxFd st = - 1 then (Returned [], emit Unlock st) else (Blocked, emit Wait st))
      else (Returned (hd (rxQ st)), emit Unlock (st\<lparr>rxQ := tl (rxQ st)\<rparr>)))"

definition tx :: "string \<Rightarrow> send_result list \<Rightarrow> jsonpipe \<Rightarrow> (error + jsonpipe) option" where
  "tx s script st =
     (let st = emit Lock st;
          st = st\<lparr>txQ := txQ st @ [s]\<rparr>
      in if length (txQ st) = 1 then
           (case txWork script st of
              None \<Rightarrow> None
            | Some (Inl e) \<Rightarrow> Some (Inl e)
            | Some (Inr st') \<Rightarrow> Some (Inr (emit Unlock st')))
         else Some (Inr (emit Unlock st)))"

definition txEof :: "jsonpipe \<Rightarrow> jsonpipe" where
  "txEof st = st\<lparr>txEofFlag := True\<rparr>"

section \<open>The codec templates (common/jsonio.h)\<close>

text \<open>
  The text being parsed is a null-terminated byte sequence and the cursor \<^verbatim>\<open>const char *&s\<close>
  points into it. The model holds the bytes from the cursor to the terminator: \<open>peek\<close> is
  \<^verbatim>\<open>*s\<close> (the terminator at the end), \<open>tl\<close> is \<^verbatim>\<open>s++\<close>. A reader returns \<open>None\<close> for
  \<^verbatim>\<open>false\<close>, and for \<^verbatim>\<open>true\<close> the value it stored and the number of bytes the cursor moved.
  A writer is modelled by the bytes it puts at the cursor. A size function is modelled by what
  it adds to \<^verbatim>\<open>size\<close>, a \<^verbatim>\<open>size_t\<close>: an unsigned machine word, whose width \<open>'w\<close> the
  platform fixes, and whose addition wraps. Addition modulo \<open>2 ^ LENGTH('w)\<close> is associative
  and commutative, so the sum of the parts is the value the running \<^verbatim>\<open>size\<close> ends with.
\<close>

type_synonym 'a reader = "string \<Rightarrow> ('a \<times> nat) option"

definition peek :: "string \<Rightarrow> char" where
  "peek s = (case s of [] \<Rightarrow> CHR 0x00 | c # _ \<Rightarrow> c)"

definition is_space :: "char \<Rightarrow> bool" where
  "is_space c = (c = CHR '' '' \<or> c = CHR 0x09 \<or> c = CHR 0x0A \<or> c = CHR 0x0D)"

fun jsonSkipSpace :: "string \<Rightarrow> string" where
  "jsonSkipSpace [] = []"
| "jsonSkipSpace (c # s) = (if is_space c then jsonSkipSpace s else c # s)"

lemma length_jsonSkipSpace: "length (jsonSkipSpace s) \<le> length s"
  by (induction s) auto

text \<open>\<^verbatim>\<open>arr.clear()\<close> of a \<^verbatim>\<open>vector\<close> or a \<^verbatim>\<open>map\<close>.\<close>

definition clear :: "'a list \<Rightarrow> 'a list" where
  "clear arr = []"

subsection \<open>\<^verbatim>\<open>shared_ptr<T>\<close>\<close>

definition wrJsonSize_ptr :: "('a \<Rightarrow> 'w::len word) \<Rightarrow> 'a option \<Rightarrow> 'w word" where
  "wrJsonSize_ptr wrJsonSizeT p = (case p of Some v \<Rightarrow> wrJsonSizeT v | None \<Rightarrow> 4)"

definition wrJson_ptr :: "('a \<Rightarrow> string) \<Rightarrow> 'a option \<Rightarrow> string" where
  "wrJson_ptr wrJsonT p = (case p of Some v \<Rightarrow> wrJsonT v | None \<Rightarrow> ''null'')"

subsection \<open>\<^verbatim>\<open>vector<T>\<close>\<close>

definition wrJsonSize_vector :: "('a \<Rightarrow> 'w::len word) \<Rightarrow> 'a list \<Rightarrow> 'w word" where
  "wrJsonSize_vector wrJsonSizeT arr = 2 + of_nat (length arr) + sum_list (map wrJsonSizeT arr)"

primrec wrVecLoop :: "('a \<Rightarrow> string) \<Rightarrow> bool \<Rightarrow> 'a list \<Rightarrow> string" where
  "wrVecLoop wrJsonT sep [] = []"
| "wrVecLoop wrJsonT sep (x # xs) =
     (if sep then '','' else []) @ wrJsonT x @ wrVecLoop wrJsonT True xs"

definition wrJson_vector :: "('a \<Rightarrow> string) \<Rightarrow> 'a list \<Rightarrow> string" where
  "wrJson_vector wrJsonT arr = ''['' @ wrVecLoop wrJsonT False arr @ '']''"

text \<open>The \<^verbatim>\<open>while (1)\<close> loop of the reader; it returns the array and the text at the
  closing bracket where it broke out.\<close>

function rdVecLoop :: "'a reader \<Rightarrow> string \<Rightarrow> 'a list \<Rightarrow> ('a list \<times> string) option" where
  "rdVecLoop rdJsonT s arr =
     (let s = jsonSkipSpace s in
      if peek s = CHR '']'' then Some (arr, s)
      else case rdJsonT s of
        None \<Rightarrow> None
      | Some (tmp, n) \<Rightarrow>
          (let arr = arr @ [tmp];
               s = jsonSkipSpace (drop n s)
           in if peek s = CHR '','' then rdVecLoop rdJsonT (tl s) arr
              else if peek s = CHR '']'' then Some (arr, s)
              else None))"
  by pat_completeness auto
termination
proof (relation "measure (\<lambda>(_, s, _). length s)")
  show "wf (measure (\<lambda>(_, s, _). length s))" by simp
next
  fix rdJsonT :: "'a reader" and s :: string and arr x :: "'a list" and xa x2 tmp y n xb xc
  assume "xc = jsonSkipSpace (drop n xa)" and "xa = jsonSkipSpace s" and "peek xc = CHR '',''"
  then have "xc \<noteq> []" and "length xc \<le> length s"
    using length_jsonSkipSpace [of s] length_jsonSkipSpace [of "drop n xa"]
    by (auto simp: peek_def)
  then show "((rdJsonT, tl xc, xb), rdJsonT, s, arr) \<in> measure (\<lambda>(_, s, _). length s)"
    by (cases xc) auto
qed

definition rdJson_vector :: "'a reader \<Rightarrow> string \<Rightarrow> 'a list \<Rightarrow> ('a list \<times> nat) option" where
  "rdJson_vector rdJsonT s0 arr =
     (let s = jsonSkipSpace s0 in
      if peek s \<noteq> CHR ''['' then None
      else case rdVecLoop rdJsonT (tl s) (clear arr) of
        None \<Rightarrow> None
      | Some (arr, s) \<Rightarrow> Some (arr, length s0 - length (tl s)))"

declare rdVecLoop.simps [simp del]

subsection \<open>\<^verbatim>\<open>map<KT, VT>\<close>\<close>

text \<open>A \<^verbatim>\<open>std::map\<close> is held as the sequence its iterator visits: the entries in strictly
  ascending key order. \<open>map_put k v arr\<close> is \<^verbatim>\<open>arr[k] = v\<close>.\<close>

fun map_put :: "'k::linorder \<Rightarrow> 'v \<Rightarrow> ('k \<times> 'v) list \<Rightarrow> ('k \<times> 'v) list" where
  "map_put k v [] = [(k, v)]"
| "map_put k v ((k', v') # arr) =
     (if k < k' then (k, v) # (k', v') # arr
      else if k = k' then (k, v) # arr
      else (k', v') # map_put k v arr)"

definition wrJsonSize_map ::
  "('k \<Rightarrow> 'w::len word) \<Rightarrow> ('v \<Rightarrow> 'w word) \<Rightarrow> ('k \<times> 'v) list \<Rightarrow> 'w word" where
  "wrJsonSize_map wrJsonSizeK wrJsonSizeV arr =
     2 + sum_list (map (\<lambda>it. wrJsonSizeK (fst it) + wrJsonSizeV (snd it) + 2) arr)"

primrec wrMapLoop :: "('k \<Rightarrow> string) \<Rightarrow> ('v \<Rightarrow> string) \<Rightarrow> bool \<Rightarrow> ('k \<times> 'v) list \<Rightarrow> string" where
  "wrMapLoop wrJsonK wrJsonV sep [] = []"
| "wrMapLoop wrJsonK wrJsonV sep (it # arr) =
     (if sep then '','' else []) @ wrJsonK (fst it) @ '':'' @ wrJsonV (snd it)
       @ wrMapLoop wrJsonK wrJsonV True arr"

definition wrJson_map :: "('k \<Rightarrow> string) \<Rightarrow> ('v \<Rightarrow> string) \<Rightarrow> ('k \<times> 'v) list \<Rightarrow> string" where
  "wrJson_map wrJsonK wrJsonV arr = ''{'' @ wrMapLoop wrJsonK wrJsonV False arr @ ''}''"

function rdMapLoop ::
  "'k::linorder reader \<Rightarrow> 'v reader \<Rightarrow> string \<Rightarrow> ('k \<times> 'v) list \<Rightarrow> (('k \<times> 'v) list \<times> string) option"
where
  "rdMapLoop rdJsonK rdJsonV s arr =
     (let s = jsonSkipSpace s in
      if peek s = CHR ''}'' then Some (arr, s)
      else case rdJsonK s of
        None \<Rightarrow> None
      | Some (ktmp, n) \<Rightarrow>
          (let s = jsonSkipSpace (drop n s) in
           if peek s \<noteq> CHR '':'' then None
           else
             (let s = jsonSkipSpace (tl s) in
              case rdJsonV s of
                None \<Rightarrow> None
              | Some (vtmp, n) \<Rightarrow>
                  (let arr = map_put ktmp vtmp arr;
                       s = jsonSkipSpace (drop n s)
                   in if peek s = CHR '','' then rdMapLoop rdJsonK rdJsonV (tl s) arr
                      else if peek s = CHR ''}'' then Some (arr, s)
                      else None))))"
  by pat_completeness auto
termination
proof (relation "measure (\<lambda>(_, _, s, _). length s)")
  show "wf (measure (\<lambda>(_, _, s, _). length s))" by simp
next
  fix rdJsonK :: "'k reader" and rdJsonV :: "'v reader" and s :: string
    and arr xf :: "('k \<times> 'v) list" and x xb xd xg :: string and n n' :: nat
  assume "xg = jsonSkipSpace (drop n' xd)" and "xd = jsonSkipSpace (tl xb)"
    and "xb = jsonSkipSpace (drop n x)" and "x = jsonSkipSpace s" and "peek xg = CHR '',''"
  then have "xg \<noteq> []" and "length xg \<le> length s"
    using length_jsonSkipSpace [of s] length_jsonSkipSpace [of "drop n x"]
      length_jsonSkipSpace [of "tl xb"] length_jsonSkipSpace [of "drop n' xd"]
    by (auto simp: peek_def)
  then show "((rdJsonK, rdJsonV, tl xg, xf), rdJsonK, rdJsonV, s, arr)
      \<in> measure (\<lambda>(_, _, s, _). length s)"
    by (cases xg) auto
qed

definition rdJson_map ::
  "'k::linorder reader \<Rightarrow> 'v reader \<Rightarrow> string \<Rightarrow> ('k \<times> 'v) list \<Rightarrow> (('k \<times> 'v) list \<times> nat) option"
where
  "rdJson_map rdJsonK rdJsonV s0 arr =
     (let s = jsonSkipSpace s0 in
      if peek s \<noteq> CHR ''{'' then None
      else case rdMapLoop rdJsonK rdJsonV (tl s) (clear arr) of
        None \<Rightarrow> None
      | Some (arr, s) \<Rightarrow> Some (arr, length s0 - length (tl s)))"

declare rdMapLoop.simps [simp del]

subsection \<open>Composition over value shapes\<close>

text \<open>
  The templates compose by overload resolution on the static type. A static type built from
  primitive types, \<^verbatim>\<open>shared_ptr\<close>, \<^verbatim>\<open>vector\<close> and \<^verbatim>\<open>map\<close> is a \<open>shape\<close>, and its
  values are the trees \<open>jv\<close>. The primitive overloads are declared in \<^verbatim>\<open>jsonio.h\<close> and
  defined elsewhere, so they are parameters: \<open>'t\<close> names the primitive types, \<open>'p\<close> holds
  their values and \<open>'k\<close> the keys of maps; \<open>wrJsonSizeP\<close>, \<open>wrJsonP\<close>, \<open>rdJsonP\<close> are the
  overloads for primitive values and \<open>wrJsonSizeK\<close>, \<open>wrJsonK\<close>, \<open>rdJsonK\<close> those for the
  key type. There is no \<^verbatim>\<open>rdJson\<close> overload for \<^verbatim>\<open>shared_ptr\<close>, so no shape for reading
  one. The overloads for \<^verbatim>\<open>vector<T *>\<close> and \<^verbatim>\<open>map<KT, VT *>\<close> repeat the loops below on
  the pointees.

  The \<^verbatim>\<open>shared_ptr\<close> templates come before the declarations of the \<^verbatim>\<open>vector\<close> and
  \<^verbatim>\<open>map\<close> templates in the header, so the call on the pointee inside them resolves to a
  primitive overload or to the \<^verbatim>\<open>shared_ptr\<close> template itself, never to a container: what a
  \<^verbatim>\<open>shared_ptr\<close> points to is a \<open>pv\<close>, a primitive behind any number of pointers.
\<close>

datatype (prims_pv: 'p) pv = PPrim 'p | PPtr "'p pv option"

datatype (keys_of: 'k, prims_of: 'p) jv =
    Prim 'p
  | Ptr "'p pv option"
  | Vec "('k, 'p) jv list"
  | Map "('k \<times> ('k, 'p) jv) list"

datatype 't shape = SPrim 't | SVec "'t shape" | SMap "'t shape"

lemma wrVecLoop_cong [fundef_cong]:
  "xs = ys \<Longrightarrow> sep = sep' \<Longrightarrow> (\<And>x. x \<in> set ys \<Longrightarrow> f x = g x) \<Longrightarrow>
   wrVecLoop f sep xs = wrVecLoop g sep' ys"
  by (induction ys arbitrary: xs sep sep') auto

lemma wrJson_vector_cong [fundef_cong]:
  "xs = ys \<Longrightarrow> (\<And>x. x \<in> set ys \<Longrightarrow> f x = g x) \<Longrightarrow> wrJson_vector f xs = wrJson_vector g ys"
  unfolding wrJson_vector_def by (simp cong: wrVecLoop_cong)

lemma wrJsonSize_vector_cong [fundef_cong]:
  "xs = ys \<Longrightarrow> (\<And>x. x \<in> set ys \<Longrightarrow> f x = g x) \<Longrightarrow>
   wrJsonSize_vector f xs = wrJsonSize_vector g ys"
  unfolding wrJsonSize_vector_def by (simp cong: map_cong)

lemma wrMapLoop_cong [fundef_cong]:
  "xs = ys \<Longrightarrow> sep = sep' \<Longrightarrow> (\<And>x. x \<in> set ys \<Longrightarrow> f (snd x) = g (snd x)) \<Longrightarrow>
   wrMapLoop k f sep xs = wrMapLoop k g sep' ys"
  by (induction ys arbitrary: xs sep sep') auto

lemma wrJson_map_cong [fundef_cong]:
  "xs = ys \<Longrightarrow> (\<And>x. x \<in> set ys \<Longrightarrow> f (snd x) = g (snd x)) \<Longrightarrow>
   wrJson_map k f xs = wrJson_map k g ys"
  unfolding wrJson_map_def by (simp cong: wrMapLoop_cong)

lemma wrJsonSize_map_cong [fundef_cong]:
  "xs = ys \<Longrightarrow> (\<And>x. x \<in> set ys \<Longrightarrow> f (snd x) = g (snd x)) \<Longrightarrow>
   wrJsonSize_map k f xs = wrJsonSize_map k g ys"
  unfolding wrJsonSize_map_def by (simp cong: map_cong)

lemma wrJson_ptr_cong [fundef_cong]:
  "p = q \<Longrightarrow> (\<And>x. q = Some x \<Longrightarrow> f x = g x) \<Longrightarrow> wrJson_ptr f p = wrJson_ptr g q"
  unfolding wrJson_ptr_def by (simp split: option.splits)

lemma wrJsonSize_ptr_cong [fundef_cong]:
  "p = q \<Longrightarrow> (\<And>x. q = Some x \<Longrightarrow> f x = g x) \<Longrightarrow> wrJsonSize_ptr f p = wrJsonSize_ptr g q"
  unfolding wrJsonSize_ptr_def by (simp split: option.splits)


fun wrJson_pv :: "('p \<Rightarrow> string) \<Rightarrow> 'p pv \<Rightarrow> string" where
  "wrJson_pv wrJsonP (PPrim p) = wrJsonP p"
| "wrJson_pv wrJsonP (PPtr p) = wrJson_ptr (wrJson_pv wrJsonP) p"


fun wrJson :: "('k \<Rightarrow> string) \<Rightarrow> ('p \<Rightarrow> string) \<Rightarrow> ('k, 'p) jv \<Rightarrow> string" where
  "wrJson wrJsonK wrJsonP (Prim p) = wrJsonP p"
| "wrJson wrJsonK wrJsonP (Ptr p) = wrJson_ptr (wrJson_pv wrJsonP) p"
| "wrJson wrJsonK wrJsonP (Vec arr) = wrJson_vector (wrJson wrJsonK wrJsonP) arr"
| "wrJson wrJsonK wrJsonP (Map arr) = wrJson_map wrJsonK (wrJson wrJsonK wrJsonP) arr"

text \<open>The destination of a read is \<open>Some w\<close> for an object the caller passes, with whatever
  it holds, and \<open>None\<close> for the fresh \<^verbatim>\<open>T tmp\<close> of the loops.\<close>

definition vector_of :: "('k, 'p) jv option \<Rightarrow> ('k, 'p) jv list" where
  "vector_of w = (case w of Some (Vec arr) \<Rightarrow> arr | _ \<Rightarrow> [])"

definition map_of_jv :: "('k, 'p) jv option \<Rightarrow> ('k \<times> ('k, 'p) jv) list" where
  "map_of_jv w = (case w of Some (Map arr) \<Rightarrow> arr | _ \<Rightarrow> [])"

fun rdJson ::
  "'k::linorder reader \<Rightarrow> ('t \<Rightarrow> 'p reader) \<Rightarrow> 't shape \<Rightarrow> string \<Rightarrow> ('k, 'p) jv option
    \<Rightarrow> (('k, 'p) jv \<times> nat) option"
where
  "rdJson rdJsonK rdJsonP (SPrim t) s w = map_option (apfst Prim) (rdJsonP t s)"
| "rdJson rdJsonK rdJsonP (SVec T) s w =
     map_option (apfst Vec)
       (rdJson_vector (\<lambda>s. rdJson rdJsonK rdJsonP T s None) s (vector_of w))"
| "rdJson rdJsonK rdJsonP (SMap T) s w =
     map_option (apfst Map)
       (rdJson_map rdJsonK (\<lambda>s. rdJson rdJsonK rdJsonP T s None) s (map_of_jv w))"


definition fromJson ::
  "'k::linorder reader \<Rightarrow> ('t \<Rightarrow> 'p reader) \<Rightarrow> 't shape \<Rightarrow> string \<Rightarrow> ('k, 'p) jv
    \<Rightarrow> ('k, 'p) jv option"
where
  "fromJson rdJsonK rdJsonP T sj w = map_option fst (rdJson rdJsonK rdJsonP T sj (Some w))"

text \<open>A value has a shape when it is what a C++ object of that static type can hold; the
  entries of a map are in strictly ascending key order.\<close>

fun has_shape :: "('t \<Rightarrow> 'p \<Rightarrow> bool) \<Rightarrow> 't shape \<Rightarrow> ('k::linorder, 'p) jv \<Rightarrow> bool" where
  "has_shape typeP (SPrim t) (Prim p) = typeP t p"
| "has_shape typeP (SVec T) (Vec arr) = list_all (has_shape typeP T) arr"
| "has_shape typeP (SMap T) (Map arr) =
     (sorted_wrt (<) (map fst arr) \<and> list_all (\<lambda>it. has_shape typeP T (snd it)) arr)"
| "has_shape typeP _ _ = False"

subsection \<open>Primitive overloads\<close>

text \<open>
  Modelled from the spec: the overloads of \<^verbatim>\<open>wrJsonSize\<close>, \<^verbatim>\<open>wrJson\<close> and \<^verbatim>\<open>rdJson\<close> for
  \<^verbatim>\<open>bool\<close> and for the integer types are declared in \<^verbatim>\<open>jsonio.h\<close>; their definitions are
  not among the sources. The specification gives: a boolean is the literal \<^verbatim>\<open>true\<close> or
  \<^verbatim>\<open>false\<close>; an integer is decimal ASCII without leading zeros, with a minus sign when
  negative; the size pass never under-estimates; decoding skips leading whitespace and fails
  on anything else. They are used to instantiate the theorems about the templates.
\<close>

datatype prim = PBool bool | PInt int

datatype ptype = TBool | TInt

definition digit_char :: "nat \<Rightarrow> char" where
  "digit_char d = ''0123456789'' ! d"

definition is_digit :: "char \<Rightarrow> bool" where
  "is_digit c = (c \<in> set ''0123456789'')"

definition digit_val :: "char \<Rightarrow> nat" where
  "digit_val c = length (takeWhile (\<lambda>d. d \<noteq> c) ''0123456789'')"

fun wr_nat :: "nat \<Rightarrow> string" where
  "wr_nat n = (if n < 10 then [digit_char n] else wr_nat (n div 10) @ [digit_char (n mod 10)])"

declare wr_nat.simps [simp del]

definition wrJson_int :: "int \<Rightarrow> string" where
  "wrJson_int i = (if i < 0 then ''-'' @ wr_nat (nat (- i)) else wr_nat (nat i))"


definition rdJson_int :: "int reader" where
  "rdJson_int s0 =
     (let s = jsonSkipSpace s0;
          neg = (peek s = CHR ''-'');
          s = (if neg then tl s else s);
          ds = takeWhile is_digit s;
          v = int (foldl (\<lambda>a c. 10 * a + digit_val c) 0 ds)
      in if ds = [] then None
         else Some (if neg then - v else v, length s0 - length s + length ds))"

definition wrJson_bool :: "bool \<Rightarrow> string" where
  "wrJson_bool b = (if b then ''true'' else ''false'')"


definition rdJson_bool :: "bool reader" where
  "rdJson_bool s0 =
     (let s = jsonSkipSpace s0 in
      if take 4 s = ''true'' then Some (True, length s0 - length s + 4)
      else if take 5 s = ''false'' then Some (False, length s0 - length s + 5)
      else None)"


fun wrJson_prim :: "prim \<Rightarrow> string" where
  "wrJson_prim (PBool b) = wrJson_bool b"
| "wrJson_prim (PInt i) = wrJson_int i"

fun rdJson_prim :: "ptype \<Rightarrow> prim reader" where
  "rdJson_prim TBool s = map_option (apfst PBool) (rdJson_bool s)"
| "rdJson_prim TInt s = map_option (apfst PInt) (rdJson_int s)"

fun type_prim :: "ptype \<Rightarrow> prim \<Rightarrow> bool" where
  "type_prim TBool (PBool b) = True"
| "type_prim TInt (PInt i) = True"
| "type_prim _ _ = False"

section \<open>Notions used to state the properties\<close>

text \<open>The transport after a \<^verbatim>\<open>send\<close> that took \<open>nw\<close> bytes of the current record: the call is
  in the trace and the bytes not taken are the current record.\<close>

definition txPartial :: "nat \<Rightarrow> jsonpipe \<Rightarrow> jsonpipe" where
  "txPartial nw st =
     (txNext st)\<lparr>txCur := drop nw (txCur (txNext st)),
       trace := trace st @ [Send (txFd st) (txCur (txNext st))]\<rparr>"

text \<open>
  What the container readers need of an element's overloads, for one value \<open>x\<close>: its
  encoding is a token (not empty, its first byte neither whitespace nor a closing bracket or
  brace, which the loops test for before they read an element), and the reader, started at
  the encoding followed by the end of the text, whitespace or one of \<^verbatim>\<open>, : ] }\<close>, returns
  \<open>x\<close> and moves the cursor to the end of the encoding, or further over whitespace.
\<close>

definition delimited :: "string \<Rightarrow> bool" where
  "delimited r =
     (r = [] \<or> is_space (hd r) \<or> hd r = CHR '','' \<or> hd r = CHR '':'' \<or> hd r = CHR '']''
       \<or> hd r = CHR ''}'')"

definition token :: "string \<Rightarrow> bool" where
  "token e = (e \<noteq> [] \<and> \<not> is_space (hd e) \<and> hd e \<noteq> CHR '']'' \<and> hd e \<noteq> CHR ''}'')"

definition inverts :: "'a reader \<Rightarrow> ('a \<Rightarrow> string) \<Rightarrow> 'a \<Rightarrow> bool" where
  "inverts rd wr x =
     (token (wr x) \<and>
      (\<forall>r. delimited r \<longrightarrow>
         (\<exists>n. rd (wr x @ r) = Some (x, n) \<and> jsonSkipSpace (drop n (wr x @ r)) = jsonSkipSpace r)))"

text \<open>
  A JSON object text, in the words of the format: optional whitespace, an opening brace, the
  members separated by commas, a closing brace; a member is a key, a colon and a value, with
  optional whitespace around each. \<open>entries\<close> are its key/value pairs in the order of the
  text.
\<close>

datatype ('k, 'v) member =
  Member (pad1: string) (mkey: 'k) (pad2: string) (pad3: string) (mval: 'v) (pad4: string)

definition member_text :: "('k \<Rightarrow> string) \<Rightarrow> ('v \<Rightarrow> string) \<Rightarrow> ('k, 'v) member \<Rightarrow> string" where
  "member_text wrK wrV m = pad1 m @ wrK (mkey m) @ pad2 m @ '':'' @ pad3 m @ wrV (mval m) @ pad4 m"

primrec members_text ::
  "('k \<Rightarrow> string) \<Rightarrow> ('v \<Rightarrow> string) \<Rightarrow> bool \<Rightarrow> ('k, 'v) member list \<Rightarrow> string" where
  "members_text wrK wrV sep [] = []"
| "members_text wrK wrV sep (m # ms) =
     (if sep then '','' else []) @ member_text wrK wrV m @ members_text wrK wrV True ms"

definition object_text ::
  "('k \<Rightarrow> string) \<Rightarrow> ('v \<Rightarrow> string) \<Rightarrow> string \<Rightarrow> string \<Rightarrow> ('k, 'v) member list \<Rightarrow> string" where
  "object_text wrK wrV lead inner ms =
     lead @ ''{'' @ (if ms = [] then inner else members_text wrK wrV False ms) @ ''}''"

definition padded :: "('k, 'v) member \<Rightarrow> bool" where
  "padded m = (list_all is_space (pad1 m) \<and> list_all is_space (pad2 m)
     \<and> list_all is_space (pad3 m) \<and> list_all is_space (pad4 m))"

definition entries :: "('k, 'v) member list \<Rightarrow> ('k \<times> 'v) list" where
  "entries ms = map (\<lambda>m. (mkey m, mval m)) ms"

text \<open>\<^verbatim>\<open>arr[k] = v\<close> for each pair of a list in turn.\<close>

definition put_all :: "('k::linorder \<times> 'v) list \<Rightarrow> ('k \<times> 'v) list \<Rightarrow> ('k \<times> 'v) list" where
  "put_all arr ps = foldl (\<lambda>arr it. map_put (fst it) (snd it) arr) arr ps"



section \<open>Example values\<close>

text \<open>Two connected transports used in the examples: separate descriptors for the two
  directions, and one shared socket with a record queued.\<close>

definition st_rx :: jsonpipe where
  "st_rx = jsonpipe_init\<lparr>txFd := 3, rxFd := 4\<rparr>"

definition st_tx :: jsonpipe where
  "st_tx = jsonpipe_init\<lparr>txFd := 3, rxFd := 3, txQ := [''42'']\<rparr>"

text \<open>A \<^verbatim>\<open>map<S64, vector<S64>>\<close>, a \<^verbatim>\<open>map<S64, vector<shared_ptr<bool>>>\<close>, and the
  members of the text \<^verbatim>\<open>{ 1: true,2:false,1:false }\<close>.\<close>

definition v_ex :: "(int, prim) jv" where
  "v_ex = Map [(1, Vec [Prim (PInt 42), Prim (PInt (- 7))]), (2, Vec [])]"




definition ms_ex :: "(int, bool) member list" where
  "ms_ex = [Member '' '' 1 [] '' '' True [], Member [] 2 [] [] False [], Member [] 1 [] [] False '' '']"

section \<open>Properties of the transport\<close>

declare rxScan.simps [simp del]

lemma rxScan_Nil: "rxScan [] s = s"
  by (cases s) (simp add: rxScan.simps)

lemma rxScan_no_newline:
  "NL \<notin> set p \<Longrightarrow> rxScan p (st, a) = (st\<lparr>rxCur := rxCur st @ p\<rparr>, a)"
  by (simp add: rxScan.simps)

lemma rxScan_newline:
  assumes nl: "NL \<in> set p"
  shows "rxScan p (st, a) =
     rxScan (tl (dropWhile (\<lambda>c. c \<noteq> NL) p))
       (st\<lparr>rxCur := [], rxQ := rxQ st @ [rxCur st @ takeWhile (\<lambda>c. c \<noteq> NL) p]\<rparr>, True)"
proof (cases "rxCur st = []")
  case True
  then have eq: "\<And>q. st\<lparr>rxCur := [], rxQ := q\<rparr> = st\<lparr>rxQ := q\<rparr>"
    by (cases st) simp
  from True nl show ?thesis
    by (subst rxScan.simps) (auto simp: Let_def eq)
next
  case False
  then show ?thesis
    using nl by (subst rxScan.simps) (auto simp: Let_def)
qed

lemma rxScan_append: "rxScan (a @ b) s = rxScan b (rxScan a s)"
proof (induction a s rule: rxScan.induct)
  case (1 p st act)
  show ?case
  proof (cases "NL \<in> set p")
    case True
    then have dw: "dropWhile (\<lambda>c. c \<noteq> NL) (p @ b) = dropWhile (\<lambda>c. c \<noteq> NL) p @ b"
      and tw: "takeWhile (\<lambda>c. c \<noteq> NL) (p @ b) = takeWhile (\<lambda>c. c \<noteq> NL) p"
      by (auto simp: dropWhile_append1 takeWhile_append1)
    from True have ne: "dropWhile (\<lambda>c. c \<noteq> NL) p \<noteq> []" "p \<noteq> []"
      by auto
    show ?thesis
    proof (cases "rxCur st = []")
      case True
      then have eq: "\<And>q. st\<lparr>rxCur := [], rxQ := q\<rparr> = st\<lparr>rxQ := q\<rparr>"
        by (cases st) simp
      from True \<open>NL \<in> set p\<close> ne 1(2) [OF _ _ refl refl] show ?thesis
        by (simp add: rxScan_newline dw tw eq)
    next
      case False
      with \<open>NL \<in> set p\<close> ne 1(1) [OF _ _ refl refl] show ?thesis
        by (simp add: rxScan_newline dw tw)
    qed
  next
    case False
    show ?thesis
    proof (cases "NL \<in> set b")
      case True
      from False have "\<And>x. x \<in> set p \<Longrightarrow> x \<noteq> NL"
        by auto
      then have "dropWhile (\<lambda>c. c \<noteq> NL) (p @ b) = dropWhile (\<lambda>c. c \<noteq> NL) b"
        and "takeWhile (\<lambda>c. c \<noteq> NL) (p @ b) = p @ takeWhile (\<lambda>c. c \<noteq> NL) b"
        by (simp_all add: dropWhile_append2 takeWhile_append2)
      with True False show ?thesis
        by (simp add: rxScan_newline rxScan_no_newline)
    next
      case nb: False
      with False show ?thesis
        by (simp add: rxScan_no_newline)
    qed
  qed
qed

lemma rxLoop_chunks:
  "chunks \<noteq> [] \<Longrightarrow> \<forall>c \<in> set chunks. c \<noteq> [] \<Longrightarrow>
   rxLoop (map ReadBytes chunks @ rest) s = rxLoop (ReadBytes (concat chunks) # rest) s"
proof (induction chunks arbitrary: s)
  case Nil
  then show ?case by simp
next
  case (Cons c cs)
  obtain st a where s: "s = (st, a)" by (cases s)
  show ?case
  proof (cases "cs = []")
    case True
    then show ?thesis by simp
  next
    case False
    with Cons have "rxLoop (map ReadBytes cs @ rest) (rxScan c s)
        = rxLoop (ReadBytes (concat cs) # rest) (rxScan c s)"
      by simp
    moreover from False Cons.prems have ne: "concat cs \<noteq> []" "c \<noteq> []" "c @ concat cs \<noteq> []"
      by (cases cs; auto)+
    moreover obtain st' a' where s': "rxScan c (st, a) = (st', a')"
      by (cases "rxScan c (st, a)")
    moreover have "rxLoop (ReadBytes (concat cs) # rest) (st', a') = rxLoop rest (rxScan (concat cs) (st', a'))"
      using ne(1) by (simp del: concat_eq_Nil_conv)
    moreover have "rxLoop (ReadBytes (c @ concat cs) # rest) (st, a) = rxLoop rest (rxScan (c @ concat cs) (st, a))"
      using ne(3) by (simp del: concat_eq_Nil_conv append_is_Nil_conv)
    ultimately show ?thesis
      using ne(2) by (simp add: s rxScan_append del: concat_eq_Nil_conv append_is_Nil_conv)
  qed
qed

lemma rxLoop_bytes:
  "buf \<noteq> [] \<Longrightarrow> rxLoop (ReadBytes buf # rest) s = rxLoop rest (rxScan buf s)"
  by (cases s) simp

lemma rxScan_same_buffers:
  "rxQ st = rxQ st' \<Longrightarrow> rxCur st = rxCur st' \<Longrightarrow>
   rxQ (fst (rxScan p (st, a))) = rxQ (fst (rxScan p (st', a')))
   \<and> rxCur (fst (rxScan p (st, a))) = rxCur (fst (rxScan p (st', a')))"
proof (induction p arbitrary: st st' a a' rule: length_induct)
  case (1 p)
  show ?case
  proof (cases "NL \<in> set p")
    case True
    let ?p' = "tl (dropWhile (\<lambda>c. c \<noteq> NL) p)"
    have "length (dropWhile (\<lambda>c. c \<noteq> NL) p) \<le> length p"
      by (rule length_dropWhile_le)
    moreover from True have "dropWhile (\<lambda>c. c \<noteq> NL) p \<noteq> []"
      by auto
    ultimately have "length ?p' < length p"
      by (cases "dropWhile (\<lambda>c. c \<noteq> NL) p") auto
    with "1.IH" "1.prems" True show ?thesis
      by (simp add: rxScan_newline)
  next
    case False
    with "1.prems" show ?thesis
      by (simp add: rxScan_no_newline)
  qed
qed

lemma rxWork_pass:
  assumes "chunks \<noteq> []" and "\<forall>c \<in> set chunks. c \<noteq> []"
  shows "\<exists>st'. rxWork (map ReadBytes chunks @ [ReadAgain]) st = Some st'
    \<and> rxQ st' = rxQ (fst (rxScan (concat chunks) (st, False)))
    \<and> rxCur st' = rxCur (fst (rxScan (concat chunks) (st, False)))"
proof -
  from assms have ne: "concat chunks \<noteq> []"
    by (cases chunks) auto
  have "rxLoop (map ReadBytes chunks @ [ReadAgain]) (st, False)
      = rxLoop [ReadBytes (concat chunks), ReadAgain] (st, False)"
    using rxLoop_chunks [OF assms] by simp
  also have "\<dots> = rxLoop [ReadAgain] (rxScan (concat chunks) (st, False))"
    using ne by (simp add: rxLoop_bytes del: concat_eq_Nil_conv)
  finally show ?thesis
    by (cases "rxScan (concat chunks) (st, False)") (simp add: rxWork_def emit_def)
qed

lemma rxFeed_scan:
  assumes "\<forall>chunks \<in> set passes. chunks \<noteq> [] \<and> (\<forall>c \<in> set chunks. c \<noteq> [])"
    and "rxQ st = rxQ st'" and "rxCur st = rxCur st'"
  shows "\<exists>st1. rxFeed passes st = Some st1
    \<and> rxQ st1 = rxQ (fst (rxScan (concat (concat passes)) (st', a)))
    \<and> rxCur st1 = rxCur (fst (rxScan (concat (concat passes)) (st', a)))"
  using assms
proof (induction passes arbitrary: st st' a)
  case Nil
  then show ?case by (simp add: rxScan_Nil)
next
  case (Cons chunks passes)
  from Cons.prems(1) have ch: "chunks \<noteq> []" "\<forall>c \<in> set chunks. c \<noteq> []"
    by simp_all
  from rxWork_pass [OF ch, of st] obtain st2 where
    w: "rxWork (map ReadBytes chunks @ [ReadAgain]) st = Some st2"
    and q: "rxQ st2 = rxQ (fst (rxScan (concat chunks) (st, False)))"
    and c: "rxCur st2 = rxCur (fst (rxScan (concat chunks) (st, False)))"
    by blast
  obtain st3 a3 where s3: "rxScan (concat chunks) (st', a) = (st3, a3)"
    by (cases "rxScan (concat chunks) (st', a)")
  have "rxQ st2 = rxQ st3" "rxCur st2 = rxCur st3"
    using rxScan_same_buffers [OF Cons.prems(2,3), of "concat chunks" False a] q c s3
    by simp_all
  from Cons.IH [OF _ this, of a3] Cons.prems(1) obtain st1 where
    "rxFeed passes st2 = Some st1"
    "rxQ st1 = rxQ (fst (rxScan (concat (concat passes)) (st3, a3)))"
    "rxCur st1 = rxCur (fst (rxScan (concat (concat passes)) (st3, a3)))"
    by auto
  with w s3 show ?case
    by (simp add: rxScan_append)
qed

text \<open>
  Claim C4. Feeding a byte stream to the receive pump in non-empty chunks, split at any
  offsets and spread over any number of servicing passes, leaves the same records in the
  receive queue, in the same order, and the same carry-over in \<open>rxCur\<close>, as feeding the
  whole stream in one chunk; both runs return. A chunk is non-empty because a read of no
  bytes is the end of the stream. A chunk here may be longer than the read buffer of 8192
  bytes: two ways of splitting a stream into chunks that fit the buffer agree with each
  other because each agrees with the single chunk.
\<close>

theorem rxWork_chunking:
  assumes "passes \<noteq> []"
    and "\<forall>chunks \<in> set passes. chunks \<noteq> [] \<and> (\<forall>c \<in> set chunks. c \<noteq> [])"
  shows "\<exists>st1 st2. rxFeed passes st = Some st1
    \<and> rxWork [ReadBytes (concat (concat passes)), ReadAgain] st = Some st2
    \<and> rxQ st1 = rxQ st2 \<and> rxCur st1 = rxCur st2"
proof -
  from rxFeed_scan [OF assms(2) refl refl, of st False] obtain st1 where
    1: "rxFeed passes st = Some st1"
    "rxQ st1 = rxQ (fst (rxScan (concat (concat passes)) (st, False)))"
    "rxCur st1 = rxCur (fst (rxScan (concat (concat passes)) (st, False)))"
    by blast
  from assms have "[concat (concat passes)] \<noteq> []" "\<forall>c \<in> set [concat (concat passes)]. c \<noteq> []"
    by (cases passes; cases "hd passes"; auto)+
  from rxWork_pass [OF this, of st] 1 show ?thesis
    by auto
qed

text \<open>The stream \<^verbatim>\<open>42\n"ab\"c"\n\<close> split inside its second record, the two chunks read in
  two passes.\<close>

theorem rxWork_chunking_witness:
  "rxFeed [[''42'' @ [NL, CHR 0x22] @ ''ab'' @ [CHR 0x5C]], [[CHR 0x22] @ ''c'' @ [CHR 0x22, NL]]] st_rx
      = Some (st_rx\<lparr>rxQ := [''42'', [CHR 0x22] @ ''ab'' @ [CHR 0x5C, CHR 0x22] @ ''c'' @ [CHR 0x22]],
           trace := [NotifyAll, NotifyAll]\<rparr>)
   \<and> rxWork [ReadBytes (''42'' @ [NL, CHR 0x22] @ ''ab'' @ [CHR 0x5C, CHR 0x22] @ ''c'' @ [CHR 0x22, NL]),
          ReadAgain] st_rx
      = Some (st_rx\<lparr>rxQ := [''42'', [CHR 0x22] @ ''ab'' @ [CHR 0x5C, CHR 0x22] @ ''c'' @ [CHR 0x22]],
           trace := [NotifyAll]\<rparr>)"
  using rxWork_chunking [of "[[''42'' @ [NL, CHR 0x22] @ ''ab'' @ [CHR 0x5C]],
      [[CHR 0x22] @ ''c'' @ [CHR 0x22, NL]]]" st_rx]
  by (simp add: rxWork_def rxScan_newline rxScan_no_newline rxScan_Nil st_rx_def jsonpipe_init_def
      emit_def)

text \<open>
  Claim C6. At a read of no bytes with a non-empty partial record buffered, on an open receive
  descriptor, the loop stops: the partial record is dropped after a diagnostic that gives its
  length, the receive queue is as it was, the receive descriptor is closed (half-closed when
  it is also the transmit descriptor) and set to \<open>-1\<close>, and the pass returns normally.
\<close>

theorem rxWork_eof_discards_partial:
  assumes "rxFd st \<noteq> - 1" and "rxCur st \<noteq> []"
  shows "rxLoop (ReadBytes [] # rest) (st, act) =
      Some (st\<lparr>rxFd := - 1, rxCur := [],
        trace := trace st @ [EprintfNoNewline (length (rxCur st)),
          if rxFd st = txFd st then Shutdown (rxFd st) SHUT_RD else Close (rxFd st)]\<rparr>, act)
    \<and> rxWork (ReadBytes [] # rest) st =
      Some (st\<lparr>rxFd := - 1, rxCur := [],
        trace := trace st @ [EprintfNoNewline (length (rxCur st)),
          if rxFd st = txFd st then Shutdown (rxFd st) SHUT_RD else Close (rxFd st)]\<rparr>)"
  using assms by (simp add: rxWork_def closeRx_def emit_def)

text \<open>The stream \<^verbatim>\<open>{"x":1\<close> followed by end of stream.\<close>

theorem rxWork_eof_discards_partial_witness:
  "rxFd (st_rx\<lparr>rxCur := ''{'' @ [CHR 0x22] @ ''x'' @ [CHR 0x22] @ '':1''\<rparr>) \<noteq> - 1
   \<and> rxCur (st_rx\<lparr>rxCur := ''{'' @ [CHR 0x22] @ ''x'' @ [CHR 0x22] @ '':1''\<rparr>) \<noteq> []
   \<and> rxWork [ReadBytes []] (st_rx\<lparr>rxCur := ''{'' @ [CHR 0x22] @ ''x'' @ [CHR 0x22] @ '':1''\<rparr>)
      = Some (st_rx\<lparr>rxFd := - 1, trace := [EprintfNoNewline 6, Close 4]\<rparr>)
   \<and> rxWork [ReadBytes (''{'' @ [CHR 0x22] @ ''x'' @ [CHR 0x22] @ '':1''), ReadBytes []] st_rx
      = Some (st_rx\<lparr>rxFd := - 1, trace := [EprintfNoNewline 6, Close 4]\<rparr>)"
  using rxWork_eof_discards_partial [of "st_rx\<lparr>rxCur := ''{'' @ [CHR 0x22] @ ''x'' @ [CHR 0x22] @ '':1''\<rparr>" "[]" False]
  by (simp add: st_rx_def jsonpipe_init_def rxWork_def rxScan_no_newline closeRx_def emit_def)

text \<open>
  Claim C10. With no bytes buffered since the last newline, a newline at the scanning position
  puts the empty record at the back of the receive queue, whatever is queued already, and the
  scan goes on behind it; so does a pass that reads a single newline. \<open>rxNonblock\<close> returns
  the empty string when that record is at the front of the queue, and removes it; on the
  empty queue it returns the empty string as well.
\<close>

theorem blank_line_empty_record:
  assumes "rxCur st = []"
  shows "rxScan (NL # rest) (st, act) = rxScan rest (st\<lparr>rxQ := rxQ st @ [[]]\<rparr>, True)
    \<and> rxWork [ReadBytes [NL], ReadAgain] st
        = Some (st\<lparr>rxQ := rxQ st @ [[]], trace := trace st @ [NotifyAll]\<rparr>)
    \<and> rxNonblock (st'\<lparr>rxQ := [] # q\<rparr>)
        = ([], st'\<lparr>rxQ := q, trace := trace st' @ [Lock, Unlock]\<rparr>)
    \<and> rxNonblock (st'\<lparr>rxQ := []\<rparr>)
        = ([], st'\<lparr>rxQ := [], trace := trace st' @ [Lock, Unlock]\<rparr>)"
proof -
  from assms have eq: "st\<lparr>rxCur := [], rxQ := rxQ st @ [[]]\<rparr> = st\<lparr>rxQ := rxQ st @ [[]]\<rparr>"
    by (cases st) simp
  have "rxScan (NL # rest) (st, act) = rxScan rest (st\<lparr>rxQ := rxQ st @ [[]]\<rparr>, True)" for rest act
    using assms by (simp add: rxScan_newline eq)
  then show ?thesis
    by (simp add: rxWork_def rxScan_Nil rxNonblock_def emit_def Let_def)
qed

text \<open>The stream \<^verbatim>\<open>a\n\n\<close>: the blank line arrives while the record \<^verbatim>\<open>a\<close> is queued.\<close>

theorem blank_line_empty_record_witness:
  "rxCur (st_rx\<lparr>rxQ := [''a'']\<rparr>) = []
   \<and> rxScan [NL] (st_rx\<lparr>rxQ := [''a'']\<rparr>, True) = (st_rx\<lparr>rxQ := [''a'', []]\<rparr>, True)
   \<and> rxWork [ReadBytes (''a'' @ [NL, NL]), ReadAgain] st_rx
       = Some (st_rx\<lparr>rxQ := [''a'', []], trace := [NotifyAll]\<rparr>)
   \<and> rxNonblock (st_rx\<lparr>rxQ := [''a'', []]\<rparr>) = (''a'', st_rx\<lparr>rxQ := [[]], trace := [Lock, Unlock]\<rparr>)
   \<and> rxNonblock (st_rx\<lparr>rxQ := [[]]\<rparr>) = ([], st_rx\<lparr>rxQ := [], trace := [Lock, Unlock]\<rparr>)
   \<and> rxNonblock (st_rx\<lparr>rxQ := []\<rparr>) = ([], st_rx\<lparr>rxQ := [], trace := [Lock, Unlock]\<rparr>)"
  using blank_line_empty_record [where st = "st_rx\<lparr>rxQ := [''a'']\<rparr>" and rest = "[]"
      and act = True and st' = st_rx and q = "[]"]
  by (simp add: st_rx_def jsonpipe_init_def rxWork_def rxScan_newline rxScan_no_newline rxScan_Nil
      rxNonblock_def emit_def Let_def)

text \<open>
  Claim C2. On a transport whose receive queue is empty, \<open>rxBlock\<close> blocks on the
  condition variable. A read of no bytes, a read error, and \<open>closeRx\<close> itself each close
  the receive descriptor, and none of them calls \<open>notify_all\<close>: the trace holds the
  \<open>close\<close> only. Entered afresh on the closed transport, \<open>rxBlock\<close> would return the
  empty string.
\<close>

theorem closeRx_without_notify:
  "fst (rxBlock st_rx) = Blocked
   \<and> rxWork [ReadBytes []] st_rx = Some (st_rx\<lparr>rxFd := - 1, trace := [Close 4]\<rparr>)
   \<and> rxWork [ReadErr] st_rx = Some (st_rx\<lparr>rxFd := - 1, trace := [Close 4]\<rparr>)
   \<and> closeRx st_rx = st_rx\<lparr>rxFd := - 1, trace := [Close 4]\<rparr>
   \<and> fst (rxBlock (st_rx\<lparr>rxFd := - 1, trace := [Close 4]\<rparr>)) = Returned []"
  by (simp add: st_rx_def jsonpipe_init_def rxBlock_def rxWork_def closeRx_def emit_def Let_def)

text \<open>
  Claim C8. \<open>txEof\<close> sets the latch and leaves the trace as it was: it does not take the
  mutex, where \<open>rxNonblock\<close> and \<open>tx\<close> start by taking it.
\<close>

theorem txEof_takes_no_lock:
  "txEofFlag (txEof st) \<and> trace (txEof st) = trace st
   \<and> (\<exists>es. trace (snd (rxNonblock st)) = trace st @ Lock # es)
   \<and> tx ''42'' [Sent 3] (jsonpipe_init\<lparr>txFd := 3, rxFd := 3\<rparr>)
      = Some (Inr (jsonpipe_init\<lparr>txFd := 3, rxFd := 3,
          trace := [Lock, Send 3 (''42'' @ [NL]), Unlock]\<rparr>))"
  by (simp add: txEof_def rxNonblock_def tx_def txWork.simps txNext_def jsonpipe_init_def emit_def
      Let_def)

lemma txNext_id: "txCur st \<noteq> [] \<Longrightarrow> txNext st = st"
  by (simp add: txNext_def)

lemma txNext_fields [simp]:
  "txFd (txNext st) = txFd st" "rxFd (txNext st) = rxFd st" "trace (txNext st) = trace st"
  "txEofFlag (txNext st) = txEofFlag st"
  by (simp_all add: txNext_def)

lemma trace_txCur_update:
  "(r :: jsonpipe)\<lparr>trace := a, txCur := b\<rparr> = r\<lparr>txCur := b, trace := a\<rparr>"
  by (cases r) simp

lemma txWork_Sent_partial:
  assumes "nw < length (txCur (txNext st))"
  shows "txWork (Sent nw # rs) st =
     txWork rs ((txNext st)\<lparr>txCur := drop nw (txCur (txNext st)),
        trace := trace st @ [Send (txFd st) (txCur (txNext st))]\<rparr>)"
proof -
  from assms have "txCur (txNext st) \<noteq> []" by auto
  with assms show ?thesis
    by (subst txWork.simps) (simp add: Let_def emit_def trace_txCur_update)
qed

lemma txWork_SendAgain:
  assumes "txCur st \<noteq> []"
  shows "txWork (SendAgain # rs) st = Some (Inr (st\<lparr>trace := trace st @ [Send (txFd st) (txCur st)]\<rparr>))"
  using assms by (subst txWork.simps) (simp add: Let_def emit_def txNext_id)

lemma txWork_step:
  assumes "txCur st \<noteq> []"
  shows "txWork (r # rs) st =
     (let st' = emit (Send (txFd st) (txCur st)) st in
      case r of
        SendAgain \<Rightarrow> Some (Inr st')
      | SendErr \<Rightarrow> Some (Inr (closeTx (emit EprintfWrite st')))
      | Sent n \<Rightarrow>
          if n < length (txCur st') then txWork rs (st'\<lparr>txCur := drop n (txCur st')\<rparr>)
          else if n = length (txCur st') then txWork rs (st'\<lparr>txCur := []\<rparr>)
          else Some (Inl RuntimeError))"
    and "txWork [] st = None"
  using assms by (subst txWork.simps, simp add: Let_def txNext_id)+

text \<open>
  Claim C3, as amended. When a send takes fewer bytes than the current record has, the unsent
  suffix becomes the current record and the pass does not stop: the rest of the pass is a
  pass on that state; it asks for another \<open>send\<close> (with no further result in the script the
  run is undetermined), and that call is on exactly the suffix, whatever it then returns. If
  it reports would-block the pass ends with the suffix kept.
\<close>

theorem txWork_partial_send_continues:
  assumes "nw < length (txCur (txNext st))"
  shows "txWork (Sent nw # rs) st = txWork rs (txPartial nw st)
    \<and> txCur (txPartial nw st) = drop nw (txCur (txNext st)) \<and> txCur (txPartial nw st) \<noteq> []
    \<and> txWork [Sent nw] st = None
    \<and> txWork (Sent nw # r # rs) st =
       (let st' = emit (Send (txFd st) (drop nw (txCur (txNext st)))) (txPartial nw st) in
        case r of
          SendAgain \<Rightarrow> Some (Inr st')
        | SendErr \<Rightarrow> Some (Inr (closeTx (emit EprintfWrite st')))
        | Sent n \<Rightarrow>
            if n < length (txCur st') then txWork rs (st'\<lparr>txCur := drop n (txCur st')\<rparr>)
            else if n = length (txCur st') then txWork rs (st'\<lparr>txCur := []\<rparr>)
            else Some (Inl RuntimeError))
    \<and> txWork (Sent nw # SendAgain # rs) st =
      Some (Inr ((txNext st)\<lparr>txCur := drop nw (txCur (txNext st)),
        trace := trace st @ [Send (txFd st) (txCur (txNext st)),
          Send (txFd st) (drop nw (txCur (txNext st)))]\<rparr>))"
proof -
  have 1: "txWork (Sent nw # rs) st = txWork rs (txPartial nw st)" for rs
    using assms by (simp add: txWork_Sent_partial txPartial_def)
  have 2: "txCur (txPartial nw st) = drop nw (txCur (txNext st))" "txCur (txPartial nw st) \<noteq> []"
    "txFd (txPartial nw st) = txFd st"
    using assms by (simp_all add: txPartial_def)
  have 3: "txWork [Sent nw] st = None"
    using 1 [of "[]"] txWork_step(2) [OF 2(2)] by simp
  have 4: "txWork (Sent nw # r # rs) st =
       (let st' = emit (Send (txFd st) (drop nw (txCur (txNext st)))) (txPartial nw st) in
        case r of
          SendAgain \<Rightarrow> Some (Inr st')
        | SendErr \<Rightarrow> Some (Inr (closeTx (emit EprintfWrite st')))
        | Sent n \<Rightarrow>
            if n < length (txCur st') then txWork rs (st'\<lparr>txCur := drop n (txCur st')\<rparr>)
            else if n = length (txCur st') then txWork rs (st'\<lparr>txCur := []\<rparr>)
            else Some (Inl RuntimeError))"
    using txWork_step(1) [OF 2(2), of r rs] by (simp add: 1 2)
  have 5: "txWork (Sent nw # SendAgain # rs) st =
      Some (Inr ((txNext st)\<lparr>txCur := drop nw (txCur (txNext st)),
        trace := trace st @ [Send (txFd st) (txCur (txNext st)),
          Send (txFd st) (drop nw (txCur (txNext st)))]\<rparr>))"
    using assms by (simp add: txWork_Sent_partial txWork_SendAgain)
  from 1 2 3 4 5 show ?thesis
    by blast
qed

text \<open>One byte of \<^verbatim>\<open>42\n\<close> taken, on a shared socket.\<close>

theorem txWork_partial_send_continues_witness:
  "1 < length (txCur (txNext st_tx))
   \<and> txCur (txPartial 1 st_tx) = ''2'' @ [NL]
   \<and> txWork [Sent 1] st_tx = None
   \<and> txWork [Sent 1, SendAgain] st_tx =
       Some (Inr (st_tx\<lparr>txQ := [], txCur := ''2'' @ [NL],
         trace := [Send 3 (''42'' @ [NL]), Send 3 (''2'' @ [NL])]\<rparr>))
   \<and> txWork [Sent 1, Sent 5] st_tx = Some (Inl RuntimeError)"
  using txWork_partial_send_continues [of 1 st_tx "[]" "Sent 5"]
    txWork_partial_send_continues [of 1 st_tx "[]" SendAgain]
  by (simp add: st_tx_def jsonpipe_init_def txNext_def emit_def Let_def)

text \<open>
  Claim C3 as stated fails: after a send that took one byte of \<^verbatim>\<open>42\n\<close> the pass calls
  \<open>send\<close> again, and when that call fails it closes the transmit direction; it does not
  stop with the suffix and the descriptor kept.
\<close>

theorem txWork_partial_send_stops_counterexample:
  "txWork [Sent 1, SendErr] st_tx =
     Some (Inr (st_tx\<lparr>txFd := - 1, txQ := [], txCur := ''2'' @ [NL],
       trace := [Send 3 (''42'' @ [NL]), Send 3 (''2'' @ [NL]), EprintfWrite, Shutdown 3 SHUT_WR]\<rparr>))
   \<and> txWork [Sent 1, SendErr] st_tx \<noteq>
     Some (Inr (st_tx\<lparr>txQ := [], txCur := ''2'' @ [NL], trace := [Send 3 (''42'' @ [NL])]\<rparr>))"
  by (simp add: txWork.simps st_tx_def jsonpipe_init_def txNext_def closeTx_def emit_def Let_def)

section \<open>Properties of the codec\<close>

subsection \<open>The size pass and the vector reader\<close>









lemmas jsonSkipSpace_Cons = jsonSkipSpace.simps(2)

lemma jsonSkipSpace_pad: "list_all is_space w \<Longrightarrow> jsonSkipSpace (w @ s) = jsonSkipSpace s"
  by (induction w) (simp_all add: jsonSkipSpace_Cons)

lemma jsonSkipSpace_token: "token e \<Longrightarrow> jsonSkipSpace (e @ s) = e @ s"
  by (cases e) (simp_all add: token_def jsonSkipSpace_Cons)

lemma peek_token: "token e \<Longrightarrow> peek (e @ s) = hd e"
  by (cases e) (simp_all add: token_def peek_def)

lemma peek_Cons [simp]: "peek (c # s) = c"
  by (simp add: peek_def)

lemma delimited_Cons:
  "delimited (c # s) = (is_space c \<or> c = CHR '','' \<or> c = CHR '':'' \<or> c = CHR '']'' \<or> c = CHR ''}'')"
  by (simp add: delimited_def)

lemma delimited_pad: "list_all is_space w \<Longrightarrow> delimited s \<Longrightarrow> delimited (w @ s)"
  by (cases w) (simp_all add: delimited_Cons)

lemma not_space_punct [simp]:
  "\<not> is_space CHR '',''" "\<not> is_space CHR '':''" "\<not> is_space CHR '']''" "\<not> is_space CHR ''}''"
  "\<not> is_space CHR ''[''" "\<not> is_space CHR ''{''"
  by (simp_all add: is_space_def)

text \<open>One turn of the vector loop on the text \<open>e @ c # s\<close>: an element, then a byte.\<close>

lemma invertsD:
  assumes "inverts rd wr x" and "delimited r"
  obtains n where "rd (wr x @ r) = Some (x, n)"
    and "jsonSkipSpace (drop n (wr x @ r)) = jsonSkipSpace r"
  using assms unfolding inverts_def by blast

lemma invertsI:
  assumes "token (wr x)" and "\<And>r. delimited r \<Longrightarrow> rd (wr x @ r) = Some (x, length (wr x))"
  shows "inverts rd wr x"
  unfolding inverts_def using assms by auto

lemma rdVecLoop_step:
  assumes "jsonSkipSpace t0 = t" and "peek t \<noteq> CHR '']''" and "rd t = Some (x, n)"
    and "jsonSkipSpace (drop n t) = c # s"
  shows "rdVecLoop rd t0 acc =
     (if c = CHR '','' then rdVecLoop rd s (acc @ [x])
      else if c = CHR '']'' then Some (acc @ [x], c # s) else None)"
  by (subst rdVecLoop.simps) (simp add: assms Let_def)

lemma rdVecLoop_element:
  assumes "inverts rd wr x" and "c = CHR '','' \<or> c = CHR '']''"
  shows "rdVecLoop rd (wr x @ c # s) acc =
     (if c = CHR '','' then rdVecLoop rd s (acc @ [x]) else Some (acc @ [x], c # s))"
proof -
  from assms(1) have tok: "token (wr x)"
    by (simp add: inverts_def)
  from assms(2) have "delimited (c # s)" and sk: "jsonSkipSpace (c # s) = c # s"
    by (auto simp: delimited_Cons)
  with assms(1) obtain n where rd: "rd (wr x @ c # s) = Some (x, n)"
    and "jsonSkipSpace (drop n (wr x @ c # s)) = jsonSkipSpace (c # s)"
    by (blast elim: invertsD)
  with sk have dr: "jsonSkipSpace (drop n (wr x @ c # s)) = c # s"
    by simp
  have "peek (wr x @ c # s) \<noteq> CHR '']''"
    using tok by (simp add: peek_token) (simp add: token_def)
  from rdVecLoop_step [where rd = rd and acc = acc, OF jsonSkipSpace_token [OF tok] this rd dr] assms(2) show ?thesis
    by auto
qed

lemma rdVecLoop_end: "rdVecLoop rd (CHR '']'' # s) acc = Some (acc, CHR '']'' # s)"
  by (subst rdVecLoop.simps) (simp add: jsonSkipSpace_Cons)

lemma wrVecLoop_True:
  "xs \<noteq> [] \<Longrightarrow> wrVecLoop wr True xs = CHR '','' # wrVecLoop wr False xs"
  by (cases xs) simp_all

lemma rdVecLoop_wrVecLoop:
  assumes "\<And>x. x \<in> set xs \<Longrightarrow> inverts rd wr x"
  shows "rdVecLoop rd (wrVecLoop wr False xs @ CHR '']'' # r) acc = Some (acc @ xs, CHR '']'' # r)"
  using assms
proof (induction xs arbitrary: acc)
  case Nil
  show ?case by (simp add: rdVecLoop_end)
next
  case (Cons x xs)
  have inv: "inverts rd wr x" using Cons.prems by simp
  show ?case
  proof (cases xs)
    case Nil
    with rdVecLoop_element [OF inv, of "CHR '']''" r acc] show ?thesis
      by simp
  next
    case (Cons y ys)
    let ?rest = "wrVecLoop wr False xs @ CHR '']'' # r"
    have "rdVecLoop rd (wr x @ CHR '','' # ?rest) acc = rdVecLoop rd ?rest (acc @ [x])"
      using rdVecLoop_element [OF inv, of "CHR '',''" ?rest acc] by simp
    moreover have "rdVecLoop rd ?rest (acc @ [x]) = Some ((acc @ [x]) @ xs, CHR '']'' # r)"
      using Cons.IH Cons.prems by simp
    ultimately show ?thesis
      using Cons by (simp add: wrVecLoop_True)
  qed
qed

lemma rdJson_vector_wrJson_vector:
  assumes "\<And>x. x \<in> set xs \<Longrightarrow> inverts rd wr x"
  shows "rdJson_vector rd (wrJson_vector wr xs @ r) arr = Some (xs, length (wrJson_vector wr xs))"
  using rdVecLoop_wrVecLoop [where rd = rd and wr = wr and xs = xs and r = r and acc = "[]", OF assms]
  by (simp add: rdJson_vector_def wrJson_vector_def jsonSkipSpace_Cons clear_def)

subsection \<open>The map reader\<close>

lemma map_of_map_put: "map_of (map_put k v arr) = (map_of arr)(k \<mapsto> v)"
  by (induction k v arr rule: map_put.induct) (auto simp: fun_upd_twist)

lemma set_fst_map_put: "fst ` set (map_put k v arr) = insert k (fst ` set arr)"
  by (induction k v arr rule: map_put.induct) auto

lemma sorted_map_put:
  "sorted_wrt (<) (map fst arr) \<Longrightarrow> sorted_wrt (<) (map fst (map_put k v arr))"
proof (induction k v arr rule: map_put.induct)
  case (1 k v)
  then show ?case by simp
next
  case (2 k v k' v' arr)
  then show ?case
    using set_fst_map_put [of k v arr] by (auto simp: image_iff)
qed

lemma map_put_last:
  "sorted_wrt (<) (map fst (arr @ [(k, v)])) \<Longrightarrow> map_put k v arr = arr @ [(k, v)]"
  by (induction arr) (auto simp: sorted_wrt_append)

lemma put_all_simps [simp]:
  "put_all arr [] = arr" "put_all arr (it # ps) = put_all (map_put (fst it) (snd it) arr) ps"
  by (simp_all add: put_all_def)

lemma put_all_sorted_id:
  "sorted_wrt (<) (map fst (arr @ ps)) \<Longrightarrow> put_all arr ps = arr @ ps"
proof (induction ps arbitrary: arr)
  case Nil
  then show ?case by simp
next
  case (Cons it ps)
  from Cons.prems have "sorted_wrt (<) (map fst (arr @ [(fst it, snd it)]))"
    by (simp add: sorted_wrt_append)
  then have "map_put (fst it) (snd it) arr = arr @ [it]"
    using map_put_last [of arr "fst it" "snd it"] by simp
  with Cons show ?case by simp
qed

lemma map_of_put_all: "map_of (put_all arr ps) = map_of (rev ps @ arr)"
proof (induction ps arbitrary: arr)
  case Nil
  then show ?case by simp
next
  case (Cons it ps)
  show ?case
    by (cases it) (simp add: Cons.IH map_of_map_put map_of_append fun_eq_iff map_add_def split: option.splits)
qed

lemma sorted_put_all:
  "sorted_wrt (<) (map fst arr) \<Longrightarrow> sorted_wrt (<) (map fst (put_all arr ps))"
  by (induction ps arbitrary: arr) (simp_all add: sorted_map_put)

text \<open>One turn of the map loop on the text \<open>ke @ p2 @ : @ p3 @ ve @ p4 @ c # s\<close>.\<close>

lemma rdMapLoop_step:
  assumes "jsonSkipSpace t0 = t" and "peek t \<noteq> CHR ''}''" and "rdK t = Some (k, n)"
    and "jsonSkipSpace (drop n t) = CHR '':'' # t2" and "jsonSkipSpace t2 = t3"
    and "rdV t3 = Some (v, n')" and "jsonSkipSpace (drop n' t3) = c # s"
  shows "rdMapLoop rdK rdV t0 arr =
     (if c = CHR '','' then rdMapLoop rdK rdV s (map_put k v arr)
      else if c = CHR ''}'' then Some (map_put k v arr, c # s) else None)"
  by (subst rdMapLoop.simps) (simp add: assms Let_def)

lemma rdMapLoop_member:
  assumes "padded m" and "inverts rdK wrK (mkey m)" and "inverts rdV wrV (mval m)"
    and "c = CHR '','' \<or> c = CHR ''}''"
  shows "rdMapLoop rdK rdV (member_text wrK wrV m @ c # s) arr =
     (if c = CHR '','' then rdMapLoop rdK rdV s (map_put (mkey m) (mval m) arr)
      else Some (map_put (mkey m) (mval m) arr, c # s))"
proof -
  let ?r2 = "pad4 m @ c # s"
  let ?t3 = "wrV (mval m) @ ?r2"
  let ?t2 = "pad3 m @ ?t3"
  let ?r1 = "pad2 m @ CHR '':'' # ?t2"
  let ?t = "wrK (mkey m) @ ?r1"
  from assms(1) have pad: "list_all is_space (pad1 m)" "list_all is_space (pad2 m)"
      "list_all is_space (pad3 m)" "list_all is_space (pad4 m)"
    by (simp_all add: padded_def)
  from assms(2,3) have tok: "token (wrK (mkey m))" "token (wrV (mval m))"
    by (simp_all add: inverts_def)
  have 0: "jsonSkipSpace (member_text wrK wrV m @ c # s) = ?t"
    using pad(1) tok(1) by (simp add: member_text_def jsonSkipSpace_pad jsonSkipSpace_token)
  have 1: "peek ?t \<noteq> CHR ''}''"
    using tok(1) by (simp add: peek_token) (simp add: token_def)
  have "delimited ?r1"
    using pad(2) by (simp add: delimited_pad delimited_Cons)
  with assms(2) obtain n where 2: "rdK ?t = Some (mkey m, n)"
    and "jsonSkipSpace (drop n ?t) = jsonSkipSpace ?r1"
    by (blast elim: invertsD)
  moreover have "jsonSkipSpace ?r1 = CHR '':'' # ?t2"
    using pad(2) by (simp add: jsonSkipSpace_pad)
  ultimately have 3: "jsonSkipSpace (drop n ?t) = CHR '':'' # ?t2"
    by simp
  have 4: "jsonSkipSpace ?t2 = ?t3"
    using pad(3) tok(2) by (simp add: jsonSkipSpace_pad jsonSkipSpace_token)
  have "delimited ?r2"
    using pad(4) assms(4) by (auto simp: delimited_pad delimited_Cons)
  with assms(3) obtain n' where 5: "rdV ?t3 = Some (mval m, n')"
    and "jsonSkipSpace (drop n' ?t3) = jsonSkipSpace ?r2"
    by (blast elim: invertsD)
  moreover have "jsonSkipSpace ?r2 = c # s"
    using pad(4) assms(4) by (auto simp: jsonSkipSpace_pad)
  ultimately have 6: "jsonSkipSpace (drop n' ?t3) = c # s"
    by simp
  from rdMapLoop_step [where rdK = rdK and rdV = rdV and arr = arr, OF 0 1 2 3 4 5 6] assms(4) show ?thesis
    by auto
qed

lemma members_text_True:
  "ms \<noteq> [] \<Longrightarrow> members_text wrK wrV True ms = CHR '','' # members_text wrK wrV False ms"
  by (cases ms) simp_all

lemma rdMapLoop_members:
  assumes "\<And>m. m \<in> set ms \<Longrightarrow> padded m \<and> inverts rdK wrK (mkey m) \<and> inverts rdV wrV (mval m)"
    and "ms \<noteq> []"
  shows "rdMapLoop rdK rdV (members_text wrK wrV False ms @ CHR ''}'' # r) arr
    = Some (put_all arr (entries ms), CHR ''}'' # r)"
  using assms
proof (induction ms arbitrary: arr)
  case Nil
  then show ?case by simp
next
  case (Cons m ms)
  have m: "padded m" "inverts rdK wrK (mkey m)" "inverts rdV wrV (mval m)"
    using Cons.prems(1) [of m] by simp_all
  show ?case
  proof (cases "ms = []")
    case True
    with rdMapLoop_member [OF m, of "CHR ''}''" r arr] show ?thesis
      by (simp add: entries_def)
  next
    case False
    with Cons have "rdMapLoop rdK rdV (members_text wrK wrV False ms @ CHR ''}'' # r)
        (map_put (mkey m) (mval m) arr)
      = Some (put_all (map_put (mkey m) (mval m) arr) (entries ms), CHR ''}'' # r)"
      by simp
    with False rdMapLoop_member [OF m, of "CHR '',''" "members_text wrK wrV False ms @ CHR ''}'' # r" arr]
    show ?thesis
      by (simp add: entries_def members_text_True)
  qed
qed

lemma rdJson_map_object_text:
  assumes "\<And>m. m \<in> set ms \<Longrightarrow> padded m \<and> inverts rdK wrK (mkey m) \<and> inverts rdV wrV (mval m)"
    and "list_all is_space lead" and "list_all is_space inner"
  shows "rdJson_map rdK rdV (object_text wrK wrV lead inner ms @ r) arr
    = Some (put_all [] (entries ms), length (object_text wrK wrV lead inner ms))"
proof (cases "ms = []")
  case True
  have "rdMapLoop rdK rdV (inner @ CHR ''}'' # r) [] = Some ([], CHR ''}'' # r)"
    using assms(3) by (subst rdMapLoop.simps) (simp add: jsonSkipSpace_pad)
  with True assms(2) show ?thesis
    by (simp add: rdJson_map_def object_text_def jsonSkipSpace_pad clear_def entries_def)
next
  case False
  with rdMapLoop_members [where rdK = rdK and rdV = rdV and wrK = wrK and wrV = wrV and ms = ms
      and r = r and arr = "[]", OF assms(1)] assms(2)
  show ?thesis
    by (simp add: rdJson_map_def object_text_def jsonSkipSpace_pad clear_def)
qed

lemma wrMapLoop_members_text:
  "wrMapLoop wrK wrV sep arr =
     members_text wrK wrV sep (map (\<lambda>it. Member [] (fst it) [] [] (snd it) []) arr)"
  by (induction arr arbitrary: sep) (simp_all add: member_text_def)

lemma wrJson_map_object_text:
  "wrJson_map wrK wrV arr =
     object_text wrK wrV [] [] (map (\<lambda>it. Member [] (fst it) [] [] (snd it) []) arr)"
  by (simp add: wrJson_map_def object_text_def wrMapLoop_members_text)

lemma rdJson_map_wrJson_map:
  assumes "\<And>it. it \<in> set ps \<Longrightarrow> inverts rdK wrK (fst it) \<and> inverts rdV wrV (snd it)"
  shows "rdJson_map rdK rdV (wrJson_map wrK wrV ps @ r) arr
    = Some (put_all [] ps, length (wrJson_map wrK wrV ps))"
proof -
  let ?ms = "map (\<lambda>it. Member [] (fst it) [] [] (snd it) []) ps"
  have "\<And>m. m \<in> set ?ms \<Longrightarrow> padded m \<and> inverts rdK wrK (mkey m) \<and> inverts rdV wrV (mval m)"
    using assms by (auto simp: padded_def)
  then have "rdJson_map rdK rdV (object_text wrK wrV [] [] ?ms @ r) arr
    = Some (put_all [] (entries ?ms), length (object_text wrK wrV [] [] ?ms))"
    by (rule rdJson_map_object_text) simp_all
  moreover have "entries ?ms = ps"
    by (simp add: entries_def comp_def)
  ultimately show ?thesis
    by (simp add: wrJson_map_object_text)
qed

subsection \<open>Reading back a composed value\<close>

lemma token_bracket [simp]: "token (CHR ''['' # s)" "token (CHR ''{'' # s)"
  by (simp_all add: token_def)

lemma rdJson_inverts:
  assumes P: "\<And>t p. typeP t p \<Longrightarrow> inverts (rdP t) wrP p" and K: "\<And>k. inverts rdK wrK k"
  shows "has_shape typeP T v \<Longrightarrow> inverts (\<lambda>s. rdJson rdK rdP T s w) (wrJson wrK wrP) v"
proof (induction v arbitrary: T w)
  case (Prim p)
  then obtain t where "T = SPrim t" "typeP t p"
    by (cases T) auto
  with P [of t p] show ?case
    by (simp add: inverts_def)
next
  case (Ptr p)
  then show ?case by (cases T) auto
next
  case (Vec arr)
  then obtain T' where T: "T = SVec T'" and el: "\<And>x. x \<in> set arr \<Longrightarrow> has_shape typeP T' x"
    by (cases T) (auto simp: list_all_iff)
  have "\<And>x. x \<in> set arr \<Longrightarrow> inverts (\<lambda>s. rdJson rdK rdP T' s None) (wrJson wrK wrP) x"
    using Vec.IH el by blast
  then have "rdJson_vector (\<lambda>s. rdJson rdK rdP T' s None) (wrJson_vector (wrJson wrK wrP) arr @ r) a
      = Some (arr, length (wrJson_vector (wrJson wrK wrP) arr))" for r a
    by (rule rdJson_vector_wrJson_vector)
  with T show ?case
    by (intro invertsI) (simp_all add: wrJson_vector_def)
next
  case (Map arr)
  then obtain T' where T: "T = SMap T'" and srt: "sorted_wrt (<) (map fst arr)"
    and el: "\<And>it. it \<in> set arr \<Longrightarrow> has_shape typeP T' (snd it)"
    by (cases T) (auto simp: list_all_iff)
  have "\<And>it. it \<in> set arr \<Longrightarrow>
      inverts rdK wrK (fst it) \<and> inverts (\<lambda>s. rdJson rdK rdP T' s None) (wrJson wrK wrP) (snd it)"
    using Map.IH el K by (metis prod.collapse snds.intros)
  then have "rdJson_map rdK (\<lambda>s. rdJson rdK rdP T' s None)
        (wrJson_map wrK (wrJson wrK wrP) arr @ r) a
      = Some (put_all [] arr, length (wrJson_map wrK (wrJson wrK wrP) arr))" for r a
    by (rule rdJson_map_wrJson_map)
  moreover have "put_all [] arr = arr"
    using srt put_all_sorted_id [of "[]" arr] by simp
  ultimately show ?case
    using T by (intro invertsI) (simp_all add: wrJson_map_def)
qed

subsection \<open>The overloads for bool and the integers\<close>

lemma digit_cases: "d < 10 \<Longrightarrow> d = 0 \<or> d = 1 \<or> d = 2 \<or> d = 3 \<or> d = 4 \<or> d = 5 \<or> d = 6 \<or> d = 7
    \<or> d = 8 \<or> d = (9::nat)"
  by arith

lemma digit_char_props:
  assumes "d < 10"
  shows "is_digit (digit_char d)" and "digit_val (digit_char d) = d"
    and "\<not> is_space (digit_char d)" and "digit_char d \<noteq> CHR '']''" and "digit_char d \<noteq> CHR ''}''"
    and "digit_char d \<noteq> CHR ''-''"
  using digit_cases [OF assms]
  by (auto simp: digit_char_def is_digit_def digit_val_def is_space_def)

lemma wr_nat_digits: "list_all is_digit (wr_nat n)"
  by (induction n rule: wr_nat.induct) (subst wr_nat.simps, simp add: digit_char_props)

lemma wr_nat_hd: "\<exists>d ds. d < 10 \<and> wr_nat n = digit_char d # ds"
proof (induction n rule: wr_nat.induct)
  case (1 n)
  show ?case
  proof (cases "n < 10")
    case True
    then show ?thesis by (subst wr_nat.simps) auto
  next
    case False
    with 1 obtain d ds where "d < 10" "wr_nat (n div 10) = digit_char d # ds" by auto
    with False show ?thesis by (subst wr_nat.simps) auto
  qed
qed

lemma foldl_wr_nat: "foldl (\<lambda>a c. 10 * a + digit_val c) 0 (wr_nat n) = n"
  by (induction n rule: wr_nat.induct) (subst wr_nat.simps, simp add: digit_char_props)

lemma delimited_not_digit: "delimited r \<Longrightarrow> r = [] \<or> \<not> is_digit (hd r)"
  by (auto simp: delimited_def is_digit_def is_space_def)

lemma takeWhile_digits:
  "list_all is_digit ds \<Longrightarrow> r = [] \<or> \<not> is_digit (hd r) \<Longrightarrow> takeWhile is_digit (ds @ r) = ds"
  by (cases r) (auto simp: list_all_iff takeWhile_append2)

lemma wr_nat_props:
  shows "token (wr_nat n)" and "wr_nat n \<noteq> []" and "peek (wr_nat n @ r) \<noteq> CHR ''-''"
    and "delimited r \<Longrightarrow> takeWhile is_digit (wr_nat n @ r) = wr_nat n"
proof -
  obtain d ds where d: "d < 10" "wr_nat n = digit_char d # ds"
    using wr_nat_hd by blast
  show "token (wr_nat n)" and "wr_nat n \<noteq> []" and "peek (wr_nat n @ r) \<noteq> CHR ''-''"
    using digit_char_props [OF d(1)] by (simp_all add: d(2) token_def)
  show "takeWhile is_digit (wr_nat n @ r) = wr_nat n" if "delimited r"
    using wr_nat_digits delimited_not_digit [OF that] by (rule takeWhile_digits)
qed

lemma rdJson_int_wrJson_int:
  assumes "delimited r"
  shows "rdJson_int (wrJson_int i @ r) = Some (i, length (wrJson_int i))"
proof (cases "i < 0")
  case True
  then show ?thesis
    using wr_nat_props(2) [of "nat (- i)"] wr_nat_props(4) [OF assms, of "nat (- i)"]
    by (simp add: rdJson_int_def wrJson_int_def is_space_def Let_def foldl_wr_nat)
next
  case False
  then show ?thesis
    using wr_nat_props(2) [of "nat i"] wr_nat_props(3) [of "nat i" r]
      wr_nat_props(4) [OF assms, of "nat i"]
    by (simp add: rdJson_int_def wrJson_int_def Let_def foldl_wr_nat
        jsonSkipSpace_token [OF wr_nat_props(1)])
qed

lemma inverts_int: "inverts rdJson_int wrJson_int i"
proof -
  have "token (wrJson_int i)"
    using wr_nat_props(1) [of "nat i"]
    by (simp add: wrJson_int_def) (simp add: token_def is_space_def)
  then show ?thesis
    by (intro invertsI) (simp_all add: rdJson_int_wrJson_int)
qed

lemma inverts_bool: "inverts rdJson_bool wrJson_bool b"
  by (cases b; intro invertsI)
    (simp_all add: token_def is_space_def rdJson_bool_def wrJson_bool_def)

lemma inverts_prim: "type_prim t p \<Longrightarrow> inverts (rdJson_prim t) wrJson_prim p"
  using inverts_int inverts_bool
  by (cases t; cases p) (auto simp: inverts_def)


subsection \<open>Reading back what \<open>asJson\<close> wrote\<close>

text \<open>
  What the templates decide of a round trip: for a shape built with \<^verbatim>\<open>vector\<close> and \<^verbatim>\<open>map\<close>,
  \<open>fromJson\<close> of the bytes of the write pass returns \<^verbatim>\<open>true\<close> with the value written,
  whatever the destination held, provided each primitive overload reads back what it writes.
  For the overloads that are not among the sources, and for floating-point values compared
  within units in the last place, this says nothing.
\<close>

lemma fromJson_wrJson:
  assumes "\<And>t p. typeP t p \<Longrightarrow> inverts (rdJsonP t) wrJsonP p"
    and "\<And>k. inverts rdJsonK wrJsonK k"
    and "has_shape typeP T v"
  shows "fromJson rdJsonK rdJsonP T (wrJson wrJsonK wrJsonP v) w = Some v"
proof -
  have "inverts (\<lambda>s. rdJson rdJsonK rdJsonP T s (Some w)) (wrJson wrJsonK wrJsonP) v"
    using assms by (intro rdJson_inverts) auto
  then obtain n where "rdJson rdJsonK rdJsonP T (wrJson wrJsonK wrJsonP v @ []) (Some w) = Some (v, n)"
    by (rule invertsD [where r = "[]"]) (simp add: delimited_def)
  then show ?thesis
    by (simp add: fromJson_def)
qed

lemma wrJson_v_ex: "wrJson wrJson_int wrJson_prim v_ex = ''{1:[42,-7],2:[]}''"
  by (simp add: v_ex_def wrJson_map_def wrJson_vector_def wrJson_int_def wr_nat.simps digit_char_def)

lemma fromJson_v_ex:
  "fromJson rdJson_int rdJson_prim (SMap (SVec (SPrim TInt))) ''{1:[42,-7],2:[]}'' (Map [(5, Vec [])])
     = Some v_ex"
proof -
  have "has_shape type_prim (SMap (SVec (SPrim TInt))) v_ex"
    by (simp add: v_ex_def)
  from fromJson_wrJson [where typeP = type_prim and w = "Map [(5, Vec [])]",
      OF inverts_prim inverts_int this]
  show ?thesis
    by (simp add: wrJson_v_ex)
qed

subsection \<open>The claims about the codec\<close>




text \<open>
  Claim C7. For every JSON object text (members in any order, keys repeated or not,
  whitespace wherever the format allows it) whose keys and values the element overloads read,
  \<open>rdJson\<close> into a map returns \<^verbatim>\<open>true\<close> at the end of the text, and the map holds, in key
  order, each key of the text with the value of its last occurrence: \<open>map_of\<close> finds the
  first pair with a given key, and the pairs are taken in reverse.
\<close>

theorem rdJson_map_last_wins:
  assumes "\<forall>m \<in> set ms. padded m \<and> inverts rdJsonK wrJsonK (mkey m) \<and> inverts rdJsonV wrJsonV (mval m)"
    and "list_all is_space lead" and "list_all is_space inner"
  shows "\<exists>arr'. rdJson_map rdJsonK rdJsonV (object_text wrJsonK wrJsonV lead inner ms @ r) arr
        = Some (arr', length (object_text wrJsonK wrJsonV lead inner ms))
      \<and> sorted_wrt (<) (map fst arr') \<and> map_of arr' = map_of (rev (entries ms))"
proof -
  have "rdJson_map rdJsonK rdJsonV (object_text wrJsonK wrJsonV lead inner ms @ r) arr
      = Some (put_all [] (entries ms), length (object_text wrJsonK wrJsonV lead inner ms))"
    using assms by (intro rdJson_map_object_text) auto
  moreover have "sorted_wrt (<) (map fst (put_all [] (entries ms)))"
    by (rule sorted_put_all) simp
  moreover have "map_of (put_all [] (entries ms)) = map_of (rev (entries ms))"
    by (simp add: map_of_put_all)
  ultimately show ?thesis by blast
qed

lemma object_text_ms_ex:
  "object_text wrJson_int wrJson_bool [] [] ms_ex = ''{ 1: true,2:false,1:false }''"
  by (simp add: ms_ex_def object_text_def member_text_def wrJson_int_def wr_nat.simps digit_char_def
      wrJson_bool_def)

text \<open>\<^verbatim>\<open>{ 1: true,2:false,1:false }\<close> read into a \<^verbatim>\<open>map<S64, bool>\<close> that held
  \<^verbatim>\<open>{7:true}\<close>.\<close>

theorem rdJson_map_last_wins_witness:
  "rdJson_map rdJson_int rdJson_bool ''{ 1: true,2:false,1:false }'' [(7, True)]
     = Some ([(1, False), (2, False)], 27)
   \<and> map_of [(1 :: int, False), (2, False)] = map_of (rev (entries ms_ex))"
proof -
  have "\<forall>m \<in> set ms_ex. padded m \<and> inverts rdJson_int wrJson_int (mkey m)
      \<and> inverts rdJson_bool wrJson_bool (mval m)"
    by (simp add: ms_ex_def padded_def is_space_def inverts_int inverts_bool)
  from rdJson_map_last_wins [OF this, of "[]" "[]" "[]" "[(7, True)]"]
  obtain arr' where "rdJson_map rdJson_int rdJson_bool ''{ 1: true,2:false,1:false }'' [(7, True)]
      = Some (arr', 27)" and "map_of arr' = map_of (rev (entries ms_ex))"
    by (auto simp: object_text_ms_ex)
  moreover have "rdJson_map rdJson_int rdJson_bool ''{ 1: true,2:false,1:false }'' [(7, True)]
      = Some ([(1, False), (2, False)], 27)"
    by (simp add: rdJson_map_def rdMapLoop.simps rdJson_int_def rdJson_bool_def is_space_def
        is_digit_def digit_val_def Let_def clear_def)
  ultimately show ?thesis by simp
qed

text \<open>
  Claim C9. For every text and every content of the destination, \<open>rdJson\<close> into a vector or
  a map returns what it returns for an empty destination; and on the encoding of a vector
  \<open>xs\<close> or of a map \<open>ps\<close> the destination ends up holding exactly \<open>xs\<close> or \<open>ps\<close>.
\<close>

theorem rdJson_clears_destination:
  assumes "\<forall>x \<in> set xs. inverts rdJsonT wrJsonT x"
    and "\<forall>it \<in> set ps. inverts rdJsonK wrJsonK (fst it) \<and> inverts rdJsonV wrJsonV (snd it)"
    and "sorted_wrt (<) (map fst ps)"
  shows "rdJson_vector rdJsonT s arr = rdJson_vector rdJsonT s []
    \<and> rdJson_map rdJsonK rdJsonV s m = rdJson_map rdJsonK rdJsonV s []
    \<and> rdJson_vector rdJsonT (wrJson_vector wrJsonT xs @ r) arr
        = Some (xs, length (wrJson_vector wrJsonT xs))
    \<and> rdJson_map rdJsonK rdJsonV (wrJson_map wrJsonK wrJsonV ps @ r) m
        = Some (ps, length (wrJson_map wrJsonK wrJsonV ps))"
proof -
  have "rdJson_vector rdJsonT (wrJson_vector wrJsonT xs @ r) arr
      = Some (xs, length (wrJson_vector wrJsonT xs))"
    using assms(1) by (intro rdJson_vector_wrJson_vector) auto
  moreover have "rdJson_map rdJsonK rdJsonV (wrJson_map wrJsonK wrJsonV ps @ r) m
      = Some (put_all [] ps, length (wrJson_map wrJsonK wrJsonV ps))"
    using assms(2) by (intro rdJson_map_wrJson_map) auto
  moreover have "put_all [] ps = ps"
    using assms(3) put_all_sorted_id [of "[]" ps] by simp
  moreover have "rdJson_vector rdJsonT s arr = rdJson_vector rdJsonT s []"
    by (simp add: rdJson_vector_def clear_def Let_def)
  moreover have "rdJson_map rdJsonK rdJsonV s m = rdJson_map rdJsonK rdJsonV s []"
    by (simp add: rdJson_map_def clear_def Let_def)
  ultimately show ?thesis
    by simp
qed

text \<open>\<^verbatim>\<open>[1,2]\<close> read into a vector that held \<^verbatim>\<open>[9,9,9]\<close>, and \<^verbatim>\<open>{1:true}\<close> into a map that
  held \<^verbatim>\<open>{1:false,3:true}\<close>.\<close>

theorem rdJson_clears_destination_witness:
  "rdJson_vector rdJson_int ''[1,2]'' [9, 9, 9] = Some ([1, 2], 5)
   \<and> rdJson_map rdJson_int rdJson_bool ''{1:true}'' [(1, False), (3, True)] = Some ([(1, True)], 8)"
proof -
  have "\<forall>x \<in> set [1, 2]. inverts rdJson_int wrJson_int x"
    and "\<forall>it \<in> set [(1, True)]. inverts rdJson_int wrJson_int (fst it)
      \<and> inverts rdJson_bool wrJson_bool (snd it)"
    and "sorted_wrt (<) (map fst [(1 :: int, True)])"
    by (simp_all add: inverts_int inverts_bool)
  from rdJson_clears_destination [OF this, where s = "[]" and arr = "[9, 9, 9]" and r = "[]"
      and m = "[(1, False), (3, True)]"]
  show ?thesis
    by (simp add: wrJson_vector_def wrJson_map_def wrJson_int_def wr_nat.simps digit_char_def
        wrJson_bool_def)
qed

end
